theory Spec2Isabelle
  imports Main
begin

section \<open>dsa::spinlock (spinlock.hpp)\<close>

text \<open>
  The class has one data member, \<^verbatim>\<open>std::atomic_flag lock_flag\<close>, and three member
  functions: \<^verbatim>\<open>lock\<close>, \<^verbatim>\<open>try_lock\<close> and \<^verbatim>\<open>unlock\<close>. They touch the flag only through
  \<^verbatim>\<open>test_and_set\<close> and \<^verbatim>\<open>clear\<close>, and the outside world only through
  \<^verbatim>\<open>std::chrono::steady_clock::now\<close> and \<^verbatim>\<open>std::this_thread::yield\<close>.

  The two template parameters fix \<^verbatim>\<open>duration_type\<close>, the common type of the user's
  duration and nanoseconds, in which \<^verbatim>\<open>lock\<close> takes its wait time and measures the elapsed
  time. Its representation and its tick are not in the header: they are parameters of the
  model (\<open>chrono\<close> below). Readings of the steady clock are counted in ticks of the clock.
\<close>

subsection \<open>The primitives the class calls\<close>

datatype memory_order = memory_order_acquire | memory_order_release

text \<open>What a thread does to the world, one entry per call of a primitive.\<close>

datatype event =
    Test_and_set memory_order bool  \<comment> \<open>\<^verbatim>\<open>lock_flag.test_and_set (mo)\<close> and the value it returned\<close>
  | Clear memory_order              \<comment> \<open>\<^verbatim>\<open>lock_flag.clear (mo)\<close>\<close>
  | Clock_now int                   \<comment> \<open>\<^verbatim>\<open>steady_clock::now ()\<close> and the reading\<close>
  | Thread_yield                    \<comment> \<open>\<^verbatim>\<open>std::this_thread::yield ()\<close>\<close>

text \<open>
  The world as the calling thread sees it at one instant: the flag of the spinlock, the
  steady clock, and (ghost state) the primitives this thread has called so far, oldest
  first.
\<close>

record world =
  lock_flag :: bool
  clock :: int
  trace :: "event list"

definition test_and_set :: "memory_order \<Rightarrow> world \<Rightarrow> bool \<times> world" where
  "test_and_set mo w =
     (lock_flag w, w\<lparr>lock_flag := True, trace := trace w @ [Test_and_set mo (lock_flag w)]\<rparr>)"

definition clear :: "memory_order \<Rightarrow> world \<Rightarrow> world" where
  "clear mo w = w\<lparr>lock_flag := False, trace := trace w @ [Clear mo]\<rparr>"

definition now :: "world \<Rightarrow> int \<times> world" where
  "now w = (clock w, w\<lparr>trace := trace w @ [Clock_now (clock w)]\<rparr>)"

definition yield :: "world \<Rightarrow> world" where
  "yield w = w\<lparr>trace := trace w @ [Thread_yield]\<rparr>"

subsection \<open>Construction, try_lock, unlock\<close>

text \<open>
  \<^verbatim>\<open>std::atomic_flag lock_flag = ATOMIC_FLAG_INIT;\<close> with the defaulted constructor: a new
  spinlock, in a world whose clock reads \<open>c\<close>.
\<close>

definition spinlock :: "int \<Rightarrow> world" where
  "spinlock c = \<lparr>lock_flag = False, clock = c, trace = []\<rparr>"

text \<open>\<^verbatim>\<open>return !lock_flag.test_and_set (std::memory_order_acquire);\<close>\<close>

definition try_lock :: "world \<Rightarrow> bool \<times> world" where
  "try_lock w = (let (was_set, w') = test_and_set memory_order_acquire w in (\<not> was_set, w'))"

text \<open>\<^verbatim>\<open>lock_flag.clear (std::memory_order_release);\<close>\<close>

definition unlock :: "world \<Rightarrow> world" where
  "unlock w = clear memory_order_release w"

subsection \<open>lock\<close>

text \<open>
  \<^verbatim>\<open>lock\<close> is two nested loops that may run forever, and between any two of its calls
  to a primitive other threads may change the flag and the clock may advance. It is
  therefore modelled in small steps, one call of a primitive per step, from one control
  point to the next:

  \<^item> \<open>Phase_start\<close>: line 140, \<^verbatim>\<open>auto const start {steady_clock::now ()}\<close>;
  \<^item> \<open>Claim start\<close>: line 142, the loop condition \<^verbatim>\<open>lock_flag.test_and_set (acquire)\<close>;
  \<^item> \<open>Measure start\<close>: lines 143 to 150, \<^verbatim>\<open>now\<close>,
    \<^verbatim>\<open>elapsed = duration_cast <duration_type> (now - start)\<close> and
    \<^verbatim>\<open>if (elapsed >= wait_time) goto yield\<close>;
  \<^item> \<open>Yielding\<close>: line 155, \<^verbatim>\<open>std::this_thread::yield ()\<close>, then the outer loop again;
  \<^item> \<open>Returned\<close>: line 153, \<^verbatim>\<open>return\<close>, reached when the loop condition is false; a
    call that has returned takes no further step.
\<close>

datatype lock_pc = Phase_start | Claim int | Measure int | Yielding | Returned

text \<open>
  What an instantiation of the template fixes, for values \<open>'d\<close> of the representation of
  \<^verbatim>\<open>duration_type\<close>: \<open>to_duration\<close> is \<^verbatim>\<open>std::chrono::duration_cast <duration_type>\<close> on the
  difference of two readings of the steady clock (given in ticks of the clock), and \<open>geq\<close>
  is \<^verbatim>\<open>operator>=\<close> on \<^verbatim>\<open>duration_type\<close>. Nothing is assumed of them: the conversion
  may overflow a fixed-width count or round a floating one.
\<close>

record 'd chrono =
  to_duration :: "int \<Rightarrow> 'd"
  geq :: "'d \<Rightarrow> 'd \<Rightarrow> bool"

fun lock_step :: "'d chrono \<Rightarrow> 'd \<Rightarrow> lock_pc \<Rightarrow> world \<Rightarrow> lock_pc \<times> world" where
  "lock_step ch wait_time Phase_start w =
     (let (start, w') = now w in (Claim start, w'))"
| "lock_step ch wait_time (Claim start) w =
     (let (was_set, w') = test_and_set memory_order_acquire w
      in (if was_set then Measure start else Returned, w'))"
| "lock_step ch wait_time (Measure start) w =
     (let (now', w') = now w; elapsed = to_duration ch (now' - start)
      in (if geq ch elapsed wait_time then Yielding else Claim start, w'))"
| "lock_step ch wait_time Yielding w = (Phase_start, yield w)"
| "lock_step ch wait_time Returned w = (Returned, w)"


definition wrap64 :: "int \<Rightarrow> int" where
  "wrap64 x = (x + 2 ^ 63) mod 2 ^ 64 - 2 ^ 63"

definition chrono64 :: "int \<Rightarrow> int chrono" where
  "chrono64 k = \<lparr>to_duration = (\<lambda>d. wrap64 (wrap64 d * k)), geq = (\<lambda>a b. a \<ge> b)\<rparr>"

subsection \<open>Threads sharing one spinlock\<close>

text \<open>
  Any number of threads, named by natural numbers, share one spinlock and one steady
  clock. A thread is either outside every member function (\<open>Idle\<close>) or inside
  \<^verbatim>\<open>lock (wait_time)\<close> at some control point; \<^verbatim>\<open>try_lock\<close> and \<^verbatim>\<open>unlock\<close> call one
  primitive and return, so a thread is never seen inside them. The ghost field \<open>owns\<close>
  records that the thread has returned from \<^verbatim>\<open>lock\<close>, or from a \<^verbatim>\<open>try_lock\<close> that gave
  \<^verbatim>\<open>true\<close>, and has not called \<^verbatim>\<open>unlock\<close> since; \<open>events\<close> is the trace of the thread's
  current or latest call.
\<close>

datatype 'd status = Idle | In_lock 'd lock_pc

record 'd thread =
  status :: "'d status"
  owns :: bool
  events :: "event list"

record 'd system =
  shared_flag :: bool
  steady_clock :: int
  threads :: "nat \<Rightarrow> 'd thread"

text \<open>
  One action of a schedule: a thread calls a member function, a thread inside \<^verbatim>\<open>lock\<close>
  runs to its next control point, or the clock advances. A steady clock never goes back.
\<close>

datatype 'd action =
    Call_lock nat 'd
  | Call_try_lock nat
  | Call_unlock nat
  | Step nat
  | Tick nat

definition view :: "'d system \<Rightarrow> nat \<Rightarrow> world" where
  "view s t = \<lparr>lock_flag = shared_flag s, clock = steady_clock s, trace = events (threads s t)\<rparr>"

definition call_view :: "'d system \<Rightarrow> nat \<Rightarrow> world" where
  "call_view s t = (view s t)\<lparr>trace := []\<rparr>"

definition commit :: "'d system \<Rightarrow> nat \<Rightarrow> world \<Rightarrow> 'd status \<Rightarrow> bool \<Rightarrow> 'd system" where
  "commit s t w st ow =
     s\<lparr>shared_flag := lock_flag w, steady_clock := clock w,
       threads := (threads s)(t := \<lparr>status = st, owns = ow, events = trace w\<rparr>)\<rparr>"

text \<open>
  A thread runs one call at a time: an action that calls a member function from a thread
  still inside \<^verbatim>\<open>lock\<close>, or that steps a thread that is in no call, is no behaviour of any
  program and changes nothing.
\<close>

fun step :: "'d chrono \<Rightarrow> 'd action \<Rightarrow> 'd system \<Rightarrow> 'd system" where
  "step ch (Call_lock t wait_time) s =
     (case status (threads s t) of
        Idle \<Rightarrow> commit s t (call_view s t) (In_lock wait_time Phase_start) (owns (threads s t))
      | In_lock _ _ \<Rightarrow> s)"
| "step ch (Call_try_lock t) s =
     (case status (threads s t) of
        Idle \<Rightarrow> (let (r, w) = try_lock (call_view s t) in commit s t w Idle (r \<or> owns (threads s t)))
      | In_lock _ _ \<Rightarrow> s)"
| "step ch (Call_unlock t) s =
     (case status (threads s t) of
        Idle \<Rightarrow> commit s t (unlock (call_view s t)) Idle False
      | In_lock _ _ \<Rightarrow> s)"
| "step ch (Step t) s =
     (case status (threads s t) of
        Idle \<Rightarrow> s
      | In_lock wait_time p \<Rightarrow>
          (let (p', w) = lock_step ch wait_time p (view s t)
           in if p' = Returned then commit s t w Idle True
              else commit s t w (In_lock wait_time p') (owns (threads s t))))"
| "step ch (Tick d) s = s\<lparr>steady_clock := steady_clock s + int d\<rparr>"

fun exec :: "'d chrono \<Rightarrow> 'd action list \<Rightarrow> 'd system \<Rightarrow> 'd system" where
  "exec ch [] s = s"
| "exec ch (a # as) s = exec ch as (step ch a s)"

text \<open>All threads idle around a new spinlock, the clock reading \<open>c\<close>.\<close>

definition boot :: "int \<Rightarrow> 'd system" where
  "boot c =
     \<lparr>shared_flag = lock_flag (spinlock c), steady_clock = clock (spinlock c),
      threads = (\<lambda>t. \<lparr>status = Idle, owns = False, events = []\<rparr>)\<rparr>"

text \<open>
  The caller's side of the contract (the header's description, lines 46 to 54): a thread
  calls \<^verbatim>\<open>unlock\<close> only while it owns the spinlock. The class does not check it.
\<close>

fun permitted :: "'d action \<Rightarrow> 'd system \<Rightarrow> bool" where
  "permitted (Call_unlock t) s = owns (threads s t)"
| "permitted _ s = True"

fun follows_contract :: "'d chrono \<Rightarrow> 'd action list \<Rightarrow> 'd system \<Rightarrow> bool" where
  "follows_contract ch [] s = True"
| "follows_contract ch (a # as) s = (permitted a s \<and> follows_contract ch as (step ch a s))"

fun is_own_step :: "nat \<Rightarrow> 'd action \<Rightarrow> bool" where
  "is_own_step t (Step u) = (u = t)"
| "is_own_step t (Tick d) = True"
| "is_own_step t _ = False"

subsection \<open>The cadence the specification describes\<close>





text \<open>
  The same, as the code finds it: the elapsed time converted to \<^verbatim>\<open>duration_type\<close> compares
  \<^verbatim>\<open>>=\<close> to the wait time.
\<close>

definition measured :: "'d chrono \<Rightarrow> 'd \<Rightarrow> int \<Rightarrow> bool" where
  "measured ch wait_time d = geq ch (to_duration ch d) wait_time"


subsection \<open>Invariants of the shared system\<close>

text \<open>
  At most one owner, the flag set while there is one, and no thread left at the control
  point \<open>Returned\<close> (a thread that reaches it is idle again).
\<close>

definition excl :: "'d system \<Rightarrow> bool" where
  "excl s =
     ((\<forall>t u. owns (threads s t) \<and> owns (threads s u) \<longrightarrow> t = u) \<and>
      ((\<exists>t. owns (threads s t)) \<longrightarrow> shared_flag s) \<and>
      (\<forall>t wt. status (threads s t) \<noteq> In_lock wt Returned))"



section \<open>Properties\<close>

lemmas prim_defs = test_and_set_def clear_def now_def yield_def try_lock_def unlock_def
lemmas sys_defs = view_def call_view_def commit_def
lemmas eval_defs = boot_def spinlock_def prim_defs sys_defs chrono64_def wrap64_def measured_def

subsection \<open>One step of lock\<close>

lemma lock_step_returned:
  "lock_step ch wt p w = (Returned, w') \<Longrightarrow> p \<noteq> Returned \<Longrightarrow>
     \<not> lock_flag w \<and> lock_flag w' \<and> clock w' = clock w \<and> (\<exists>start. p = Claim start) \<and>
     trace w' = trace w @ [Test_and_set memory_order_acquire False]"
  by (cases p) (auto simp: prim_defs split: if_splits)

lemma lock_step_not_returned:
  "lock_step ch wt p w = (p', w') \<Longrightarrow> p' \<noteq> Returned \<Longrightarrow>
     (lock_flag w \<longrightarrow> lock_flag w') \<and> clock w' = clock w"
  by (cases p) (auto simp: prim_defs split: if_splits)

lemma lock_step_held:
  "lock_step ch wt p w = (p', w') \<Longrightarrow> p \<noteq> Returned \<Longrightarrow> lock_flag w \<Longrightarrow>
     p' \<noteq> Returned \<and> lock_flag w'"
  by (cases p) (auto simp: prim_defs split: if_splits)






subsection \<open>The conversion in 64 bits\<close>




subsection \<open>The invariants hold in every reachable state\<close>

lemma excl_step: "excl s \<Longrightarrow> permitted a s \<Longrightarrow> excl (step ch a s)"
proof (cases a)
  case (Call_lock t wt)
  assume "excl s" then show ?thesis using Call_lock
    by (auto simp: excl_def sys_defs split: status.splits)
next
  case (Call_try_lock t)
  assume "excl s" then show ?thesis using Call_try_lock
    by (auto simp: excl_def sys_defs prim_defs split: status.splits)
next
  case (Call_unlock t)
  assume "excl s" "permitted a s" then show ?thesis using Call_unlock
    by (auto simp: excl_def sys_defs prim_defs split: status.splits)
next
  case (Step t)
  assume e: "excl s"
  show ?thesis
  proof (cases "status (threads s t)")
    case Idle
    then show ?thesis using e Step by simp
  next
    case (In_lock wt p)
    obtain p' w' where ls: "lock_step ch wt p (view s t) = (p', w')"
      by (cases "lock_step ch wt p (view s t)")
    have pr: "p \<noteq> Returned" using e In_lock by (auto simp: excl_def)
    show ?thesis
    proof (cases "p' = Returned")
      case True
      then show ?thesis using e Step In_lock ls lock_step_returned [OF ls [unfolded True] pr]
        by (auto simp: excl_def commit_def view_def)
    next
      case False
      then show ?thesis using e Step In_lock ls lock_step_not_returned[OF ls False]
        by (auto simp: excl_def commit_def view_def)
    qed
  qed
next
  case (Tick d)
  assume "excl s" then show ?thesis using Tick by (simp add: excl_def)
qed

lemma excl_exec: "excl s \<Longrightarrow> follows_contract ch as s \<Longrightarrow> excl (exec ch as s)"
  by (induction as arbitrary: s) (auto intro: excl_step)

lemma excl_boot: "excl (boot c)"
  by (simp add: excl_def boot_def)





lemma stays_in_lock:
  "shared_flag s \<Longrightarrow> status (threads s t) = In_lock wt p \<Longrightarrow> p \<noteq> Returned \<Longrightarrow>
   list_all (is_own_step t) bs \<Longrightarrow>
     \<exists>p'. status (threads (exec ch bs s) t) = In_lock wt p' \<and> p' \<noteq> Returned \<and> shared_flag (exec ch bs s)"
proof (induction bs arbitrary: s p)
  case Nil
  then show ?case by simp
next
  case (Cons a bs)
  have "\<exists>p'. status (threads (step ch a s) t) = In_lock wt p' \<and> p' \<noteq> Returned \<and> shared_flag (step ch a s)"
  proof (cases a)
    case (Step u)
    then have [simp]: "u = t" using Cons.prems by simp
    obtain p' w' where ls: "lock_step ch wt p (view s t) = (p', w')"
      by (cases "lock_step ch wt p (view s t)")
    show ?thesis using Step Cons.prems ls lock_step_held[OF ls]
      by (auto simp: commit_def view_def)
  next
    case (Tick d)
    then show ?thesis using Cons.prems by simp
  qed (use Cons.prems in simp_all)
  then obtain p' where "status (threads (step ch a s) t) = In_lock wt p'" "p' \<noteq> Returned"
    "shared_flag (step ch a s)" by blast
  then show ?case using Cons.IH[of "step ch a s" p'] Cons.prems by simp
qed

subsection \<open>try_lock and unlock\<close>

text \<open>
  C2. On a free lock \<^verbatim>\<open>try_lock\<close> returns true and leaves the lock held; on a held lock it
  returns false and leaves the world as it was. Either way the call makes exactly one
  acquire-ordered \<^verbatim>\<open>test_and_set\<close>, reads no clock and does not yield, and the calling
  thread is idle again at once: it never waits inside the call.
\<close>

theorem try_lock_single_attempt:
  "(\<not> lock_flag w \<longrightarrow>
      try_lock w =
        (True, w\<lparr>lock_flag := True,
                 trace := trace w @ [Test_and_set memory_order_acquire False]\<rparr>)) \<and>
   (lock_flag w \<longrightarrow>
      try_lock w = (False, w\<lparr>trace := trace w @ [Test_and_set memory_order_acquire True]\<rparr>)) \<and>
   (status (threads s t) = Idle \<longrightarrow>
      status (threads (step ch (Call_try_lock t) s) t) = Idle \<and>
      events (threads (step ch (Call_try_lock t) s) t) =
        [Test_and_set memory_order_acquire (shared_flag s)] \<and>
      owns (threads (step ch (Call_try_lock t) s) t) = (\<not> shared_flag s \<or> owns (threads s t)) \<and>
      shared_flag (step ch (Call_try_lock t) s) \<and>
      steady_clock (step ch (Call_try_lock t) s) = steady_clock s \<and>
      (\<forall>u. u \<noteq> t \<longrightarrow> threads (step ch (Call_try_lock t) s) u = threads s u))"
  by (simp add: prim_defs sys_defs)

theorem try_lock_single_attempt_witness:
  "\<not> lock_flag (spinlock 0) \<and> fst (try_lock (spinlock 0)) \<and>
   lock_flag (snd (try_lock (spinlock 0))) \<and>
   \<not> fst (try_lock (snd (try_lock (spinlock 0)))) \<and>
   lock_flag (snd (try_lock (snd (try_lock (spinlock 0))))) \<and>
   status (threads (boot 0 :: int system) 0) = Idle \<and>
   status (threads (step (chrono64 1) (Call_try_lock 0) (boot 0)) 0) = Idle \<and>
   owns (threads (step (chrono64 1) (Call_try_lock 0) (boot 0)) 0) \<and>
   (1::nat) \<noteq> 0 \<and>
   threads (step (chrono64 1) (Call_try_lock 0) (boot 0)) 1 = threads (boot 0) 1"
  using try_lock_single_attempt
          [where w = "spinlock 0" and s = "boot 0" and t = 0 and ch = "chrono64 1"]
        try_lock_single_attempt
          [where w = "snd (try_lock (spinlock 0))" and s = "boot 0 :: int system" and t = 0
             and ch = "chrono64 1"]
  by (simp add: spinlock_def boot_def)

text \<open>
  C5. In every state \<^verbatim>\<open>unlock\<close> makes exactly one release-ordered \<^verbatim>\<open>clear\<close>, which
  leaves the flag free, and nothing else. Neither \<^verbatim>\<open>unlock\<close> nor \<^verbatim>\<open>try_lock\<close> reads the
  clock or yields, and whatever the state of the lock the calling thread is idle again
  after the one action: it is never left waiting inside either call.
\<close>

theorem unlock_single_clear:
  "unlock w = w\<lparr>lock_flag := False, trace := trace w @ [Clear memory_order_release]\<rparr> \<and>
   (status (threads s t) = Idle \<longrightarrow>
      status (threads (step ch (Call_unlock t) s) t) = Idle \<and>
      events (threads (step ch (Call_unlock t) s) t) = [Clear memory_order_release] \<and>
      \<not> shared_flag (step ch (Call_unlock t) s) \<and>
      steady_clock (step ch (Call_unlock t) s) = steady_clock s \<and>
      status (threads (step ch (Call_try_lock t) s) t) = Idle \<and>
      events (threads (step ch (Call_try_lock t) s) t) =
        [Test_and_set memory_order_acquire (shared_flag s)])"
  by (simp add: prim_defs sys_defs)

theorem unlock_single_clear_witness:
  "status (threads (step (chrono64 1) (Call_try_lock 1) (boot 0)) 0) = Idle \<and>
   shared_flag (step (chrono64 1) (Call_try_lock 1) (boot 0)) \<and>
   status (threads (step (chrono64 1) (Call_unlock 0) (step (chrono64 1) (Call_try_lock 1) (boot 0))) 0) = Idle \<and>
   \<not> shared_flag (step (chrono64 1) (Call_unlock 0) (step (chrono64 1) (Call_try_lock 1) (boot 0))) \<and>
   status (threads (step (chrono64 1) (Call_try_lock 0) (step (chrono64 1) (Call_try_lock 1) (boot 0))) 0) = Idle \<and>
   events (threads (step (chrono64 1) (Call_try_lock 0) (step (chrono64 1) (Call_try_lock 1) (boot 0))) 0) =
     [Test_and_set memory_order_acquire True]"
  using unlock_single_clear
          [where w = "spinlock 0" and s = "step (chrono64 1) (Call_try_lock 1) (boot 0)"
             and t = 0 and ch = "chrono64 1"]
  by (simp add: eval_defs)

text \<open>
  C6. A new spinlock is free; on it \<^verbatim>\<open>try_lock\<close> returns true, a second \<^verbatim>\<open>try_lock\<close>
  returns false, and after \<^verbatim>\<open>unlock\<close> a third \<^verbatim>\<open>try_lock\<close> returns true again.
\<close>

theorem single_thread_round_trip:
  "(let w0 = spinlock c;
        (r1, w1) = try_lock w0;
        (r2, w2) = try_lock w1;
        w3 = unlock w2;
        (r3, w4) = try_lock w3
    in (lock_flag w0, r1, r2, r3)) = (False, True, False, True)"
  by (simp add: spinlock_def prim_defs)

text \<open>
  C9. \<^verbatim>\<open>unlock\<close> is defined in every state and always leaves the flag free, so on a free
  lock it leaves it free, and a second \<^verbatim>\<open>unlock\<close> leaves the flag and the clock as the
  first one left them (only the trace, which counts the calls, grows).
\<close>

theorem unlock_idempotent:
  "lock_flag (unlock w) = False \<and>
   unlock (unlock w) = (unlock w)\<lparr>trace := trace (unlock w) @ [Clear memory_order_release]\<rparr> \<and>
   lock_flag (unlock (unlock w)) = lock_flag (unlock w) \<and>
   clock (unlock (unlock w)) = clock (unlock w)"
  by (simp add: prim_defs)

subsection \<open>Mutual exclusion\<close>

text \<open>
  C1. Whatever the number of threads, their calls and their interleaving, as long as each
  call of \<^verbatim>\<open>unlock\<close> comes from the thread that owns the spinlock: at every instant at most
  one thread has returned from \<^verbatim>\<open>lock\<close> or from a successful \<^verbatim>\<open>try_lock\<close> and not yet
  called \<^verbatim>\<open>unlock\<close>.
\<close>

theorem mutual_exclusion:
  "follows_contract ch as (boot c) \<Longrightarrow> owns (threads (exec ch as (boot c)) t) \<Longrightarrow> u \<noteq> t \<Longrightarrow>
     \<not> owns (threads (exec ch as (boot c)) u)"
proof -
  assume fc: "follows_contract ch as (boot c)"
    and o: "owns (threads (exec ch as (boot c)) t)" and ne: "u \<noteq> t"
  have "excl (exec ch as (boot c))" by (rule excl_exec [OF excl_boot fc])
  then show ?thesis using o ne by (auto simp: excl_def)
qed

theorem mutual_exclusion_witness:
  "follows_contract (chrono64 1)
     [Call_lock 0 5, Call_try_lock 1, Step 0, Step 0, Step 0, Call_unlock 1, Step 0] (boot 0) \<and>
   owns (threads (exec (chrono64 1)
     [Call_lock 0 5, Call_try_lock 1, Step 0, Step 0, Step 0, Call_unlock 1, Step 0] (boot 0)) 0) \<and>
   (1::nat) \<noteq> 0 \<and>
   \<not> owns (threads (exec (chrono64 1)
     [Call_lock 0 5, Call_try_lock 1, Step 0, Step 0, Step 0, Call_unlock 1, Step 0] (boot 0)) 1)"
proof -
  let ?as = "[Call_lock 0 5, Call_try_lock 1, Step 0, Step 0, Step 0, Call_unlock 1, Step 0]"
  have a: "follows_contract (chrono64 1) ?as (boot 0)"
    by (simp add: eval_defs)
  have b: "owns (threads (exec (chrono64 1) ?as (boot 0)) 0)"
    by (simp add: eval_defs)
  have c: "(1::nat) \<noteq> 0" by simp
  show ?thesis using a b c mutual_exclusion [OF a b c] by blast
qed

text \<open>
  The hypothesis is needed: the class keeps no record of the owner, and an \<^verbatim>\<open>unlock\<close> from
  a thread that does not own the spinlock lets a second thread in.
\<close>

lemma unlock_by_non_owner:
  "\<not> follows_contract (chrono64 1) [Call_try_lock 0, Call_unlock 1, Call_try_lock 2] (boot 0) \<and>
   owns (threads (exec (chrono64 1) [Call_try_lock 0, Call_unlock 1, Call_try_lock 2] (boot 0)) 0) \<and>
   owns (threads (exec (chrono64 1) [Call_try_lock 0, Call_unlock 1, Call_try_lock 2] (boot 0)) 2)"
  by (simp add: eval_defs)

subsection \<open>lock\<close>

text \<open>
  C3. In every reachable state, a step of a thread inside \<^verbatim>\<open>lock (wait_time)\<close> ends the
  call only if the step is a \<^verbatim>\<open>test_and_set\<close> that found the flag clear: then the flag is
  set, the thread owns the spinlock and no other thread does. There is no other way out:
  while the flag stays set, the thread is still inside \<^verbatim>\<open>lock\<close> after any number of its
  own steps and any advance of the clock, for every \<open>wait_time\<close>.
\<close>

theorem lock_returns_only_as_owner:
  fixes ch :: "'d chrono"
  assumes "follows_contract ch as (boot c)" and "s = exec ch as (boot c)"
    and "status (threads s t) = In_lock wait_time p"
  shows "(status (threads (step ch (Step t) s) t) = Idle \<longrightarrow>
            (\<exists>start. p = Claim start) \<and> \<not> shared_flag s \<and>
            shared_flag (step ch (Step t) s) \<and>
            events (threads (step ch (Step t) s) t) =
              events (threads s t) @ [Test_and_set memory_order_acquire False] \<and>
            owns (threads (step ch (Step t) s) t) \<and>
            (\<forall>u. u \<noteq> t \<longrightarrow> \<not> owns (threads (step ch (Step t) s) u))) \<and>
         (shared_flag s \<longrightarrow>
            (\<forall>bs. list_all (is_own_step t) bs \<longrightarrow>
               (\<exists>p'. status (threads (exec ch bs s) t) = In_lock wait_time p')))"
proof (intro conjI impI allI)
  have e: "excl s" using assms(1,2) excl_exec [OF excl_boot] by simp
  then have pr: "p \<noteq> Returned" using assms(3) by (auto simp: excl_def)
  obtain p' w' where ls: "lock_step ch wait_time p (view s t) = (p', w')"
    by (cases "lock_step ch wait_time p (view s t)")
  have e': "excl (step ch (Step t) s)" by (rule excl_step [OF e]) simp
  {
    assume "status (threads (step ch (Step t) s) t) = Idle"
    then have ret: "p' = Returned" using assms(3) ls by (auto simp: commit_def split: if_splits)
    note r = lock_step_returned [OF ls [unfolded ret] pr]
    show "\<exists>start. p = Claim start" using r by simp
    show "\<not> shared_flag s" using r by (simp add: view_def)
    show "shared_flag (step ch (Step t) s)" using r assms(3) ls ret by (simp add: commit_def)
    show "events (threads (step ch (Step t) s) t) =
            events (threads s t) @ [Test_and_set memory_order_acquire False]"
      using r assms(3) ls ret by (simp add: commit_def view_def)
    show o: "owns (threads (step ch (Step t) s) t)" using assms(3) ls ret by (simp add: commit_def)
    fix u :: nat assume "u \<noteq> t"
    then show "\<not> owns (threads (step ch (Step t) s) u)" using e' o by (auto simp: excl_def)
  }
  {
    fix bs :: "'d action list"
    assume "shared_flag s" "list_all (is_own_step t) bs"
    then show "\<exists>p'. status (threads (exec ch bs s) t) = In_lock wait_time p'"
      using stays_in_lock [OF _ assms(3) pr] by blast
  }
qed

theorem lock_returns_only_as_owner_witness:
  "follows_contract (chrono64 1) [Call_lock 0 5, Step 0] (boot 0) \<and>
   status (threads (exec (chrono64 1) [Call_lock 0 5, Step 0] (boot 0)) 0) = In_lock 5 (Claim 0) \<and>
   status (threads (step (chrono64 1) (Step 0) (exec (chrono64 1) [Call_lock 0 5, Step 0] (boot 0))) 0) = Idle \<and>
   shared_flag (step (chrono64 1) (Step 0) (exec (chrono64 1) [Call_lock 0 5, Step 0] (boot 0))) \<and>
   owns (threads (step (chrono64 1) (Step 0) (exec (chrono64 1) [Call_lock 0 5, Step 0] (boot 0))) 0) \<and>
   (1::nat) \<noteq> 0 \<and>
   \<not> owns (threads (step (chrono64 1) (Step 0) (exec (chrono64 1) [Call_lock 0 5, Step 0] (boot 0))) 1) \<and>
   follows_contract (chrono64 1) [Call_try_lock 1, Call_lock 0 5, Step 0] (boot 0) \<and>
   status (threads (exec (chrono64 1) [Call_try_lock 1, Call_lock 0 5, Step 0] (boot 0)) 0) =
     In_lock 5 (Claim 0) \<and>
   shared_flag (exec (chrono64 1) [Call_try_lock 1, Call_lock 0 5, Step 0] (boot 0)) \<and>
   list_all (is_own_step 0) [Step 0, Tick 9, Step 0, Step 0, Step 0, Step 0 :: int action] \<and>
   (\<exists>p'. status (threads (exec (chrono64 1) [Step 0, Tick 9, Step 0, Step 0, Step 0, Step 0]
            (exec (chrono64 1) [Call_try_lock 1, Call_lock 0 5, Step 0] (boot 0))) 0) = In_lock 5 p')"
proof -
  let ?free = "exec (chrono64 1) [Call_lock 0 5, Step 0] (boot 0)"
  let ?held = "exec (chrono64 1) [Call_try_lock 1, Call_lock 0 5, Step 0] (boot 0)"
  have a1: "follows_contract (chrono64 1) [Call_lock 0 5, Step 0] (boot 0)" by simp
  have b1: "status (threads ?free 0) = In_lock 5 (Claim 0)" by (simp add: eval_defs)
  have c1: "status (threads (step (chrono64 1) (Step 0) ?free) 0) = Idle" by (simp add: eval_defs)
  have a2: "follows_contract (chrono64 1) [Call_try_lock 1, Call_lock 0 5, Step 0] (boot 0)" by simp
  have b2: "status (threads ?held 0) = In_lock 5 (Claim 0)" by (simp add: eval_defs)
  have c2: "shared_flag ?held" by (simp add: eval_defs)
  have d2: "list_all (is_own_step 0) [Step 0, Tick 9, Step 0, Step 0, Step 0, Step 0 :: int action]"
    by simp
  have ne: "(1::nat) \<noteq> 0" by simp
  have r1: "shared_flag (step (chrono64 1) (Step 0) ?free) \<and> owns (threads (step (chrono64 1) (Step 0) ?free) 0) \<and>
            \<not> owns (threads (step (chrono64 1) (Step 0) ?free) 1)"
    using lock_returns_only_as_owner [OF a1 refl b1] c1 ne by blast
  have r2: "\<exists>p'. status (threads (exec (chrono64 1) [Step 0, Tick 9, Step 0, Step 0, Step 0, Step 0] ?held) 0) =
              In_lock 5 p'"
    using lock_returns_only_as_owner [OF a2 refl b2] c2 d2 by blast
  show ?thesis using a1 b1 c1 r1 ne a2 b2 c2 d2 r2 by blast
qed







end
